theory Spec2Isabelle
  imports Main "HOL-Library.Sublist"
begin

section \<open>The regular-expression engine behind \<open>re.sub\<close>\<close>

text \<open>
  \<open>filter_datum\<close> builds a pattern string and a replacement template from its arguments
  and hands both to \<open>re.sub\<close>. The pattern is parsed, matched with backtracking
  (leftmost match, earlier alternative first, greedy repetition) and every match is
  replaced by the expanded template. The fragment of the pattern language modelled here:
  literal characters, the dot, character sets with ranges and negation, escaped
  punctuation, alternation, groups (plain and named) and the repetitions \<open>*\<close>, \<open>+\<close>,
  \<open>?\<close> on a single-character item. A call ends in one of three ways: it returns a
  string, \<open>re\<close> raises an exception (\<open>ReError\<close>), or the pattern or the template
  leaves the fragment (\<open>NotModelled\<close>, nothing is said about the call).
\<close>

datatype re_failure = ReError | NotModelled

definition backslash :: char where
  "backslash = CHR 0x5C"

definition newline :: char where
  "newline = CHR 0x0A"

definition ascii_letter :: "char \<Rightarrow> bool" where
  "ascii_letter c =
     ((65 \<le> (of_char c :: nat) \<and> (of_char c :: nat) \<le> 90) \<or>
      (97 \<le> (of_char c :: nat) \<and> (of_char c :: nat) \<le> 122))"

definition ascii_digit :: "char \<Rightarrow> bool" where
  "ascii_digit c = (48 \<le> (of_char c :: nat) \<and> (of_char c :: nat) \<le> 57)"

subsection \<open>Lexemes: a character, or a backslash with the character after it\<close>

type_synonym lexeme = "bool \<times> char"

fun cons_ok :: "'a \<Rightarrow> 'e + 'a list \<Rightarrow> 'e + 'a list" where
  "cons_ok x (Inl e) = Inl e"
| "cons_ok x (Inr xs) = Inr (x # xs)"

fun lexemes :: "string \<Rightarrow> re_failure + lexeme list" where
  "lexemes [] = Inr []"
| "lexemes [c] = (if c = backslash then Inl ReError else Inr [(False, c)])"
| "lexemes (c # d # cs) =
     (if c = backslash then cons_ok (True, d) (lexemes cs)
      else cons_ok (False, c) (lexemes (d # cs)))"

subsection \<open>Character sets\<close>

datatype chset = One char | AnyChar | Among bool "(char \<times> char) list"

fun accepts :: "chset \<Rightarrow> char \<Rightarrow> bool" where
  "accepts (One a) c = (c = a)"
| "accepts AnyChar c = (c \<noteq> newline)"
| "accepts (Among neg rs) c =
     (list_ex (\<lambda>r. (of_char (fst r) :: nat) \<le> of_char c \<and> (of_char c :: nat) \<le> of_char (snd r)) rs
        \<noteq> neg)"

definition member_of :: "lexeme \<Rightarrow> re_failure + char" where
  "member_of l =
     (if fst l \<and> (ascii_letter (snd l) \<or> ascii_digit (snd l)) then Inl NotModelled
      else Inr (snd l))"

fun add_range :: "char \<times> char \<Rightarrow> nat \<Rightarrow> re_failure + ((char \<times> char) list \<times> nat) \<Rightarrow>
    re_failure + ((char \<times> char) list \<times> nat)" where
  "add_range r k (Inl e) = Inl e"
| "add_range r k (Inr (rs, n)) = Inr (r # rs, n + k)"

text \<open>
  The members of a set, read up to the closing bracket. The result is the list of ranges
  and the number of lexemes read, the bracket included. A bracket that comes first is a
  member; a set the pattern ends in is an error, and so is a range that runs backwards.
\<close>

fun set_items :: "bool \<Rightarrow> lexeme list \<Rightarrow> re_failure + ((char \<times> char) list \<times> nat)" where
  "set_items first [] = Inl ReError"
| "set_items first (l # ls) =
     (if l = (False, CHR '']'') \<and> \<not> first then Inr ([], 1)
      else case member_of l of
        Inl e \<Rightarrow> Inl e
      | Inr lo \<Rightarrow>
         (case ls of
            [] \<Rightarrow> Inl ReError
          | [d] \<Rightarrow>
              if d = (False, CHR ''-'') then Inl ReError
              else add_range (lo, lo) 1 (set_items False ls)
          | d # h # rest \<Rightarrow>
              if d = (False, CHR ''-'') then
                (if h = (False, CHR '']'') then Inr ([(lo, lo), (CHR ''-'', CHR ''-'')], 3)
                 else case member_of h of
                   Inl e \<Rightarrow> Inl e
                 | Inr hi \<Rightarrow>
                     if (of_char hi :: nat) < of_char lo then Inl ReError
                     else add_range (lo, hi) 3 (set_items False rest))
              else add_range (lo, lo) 1 (set_items False ls)))"

subsection \<open>Tokens\<close>

datatype token =
    TAtom chset
  | TStar
  | TPlus
  | TQuest
  | TBar
  | TOpen "string option"
  | TClose

definition is_identifier :: "lexeme list \<Rightarrow> bool" where
  "is_identifier ls =
     (ls \<noteq> [] \<and> \<not> ascii_digit (snd (hd ls)) \<and>
      list_all (\<lambda>l. \<not> fst l \<and> (ascii_letter (snd l) \<or> ascii_digit (snd l) \<or> snd l = CHR ''_'')) ls)"

function tokenize :: "lexeme list \<Rightarrow> re_failure + token list" where
  "tokenize [] = Inr []"
| "tokenize (l # ls) =
     (if fst l then
        (if ascii_letter (snd l) \<or> ascii_digit (snd l) then Inl NotModelled
         else cons_ok (TAtom (One (snd l))) (tokenize ls))
      else if snd l = CHR ''.'' then cons_ok (TAtom AnyChar) (tokenize ls)
      else if snd l = CHR ''*'' then cons_ok TStar (tokenize ls)
      else if snd l = CHR ''+'' then cons_ok TPlus (tokenize ls)
      else if snd l = CHR ''?'' then cons_ok TQuest (tokenize ls)
      else if snd l = CHR ''|'' then cons_ok TBar (tokenize ls)
      else if snd l = CHR '')'' then cons_ok TClose (tokenize ls)
      else if snd l = CHR ''['' then
        (if take 1 ls = [(False, CHR ''^'')] then
           (case set_items True (drop 1 ls) of
              Inl e \<Rightarrow> Inl e
            | Inr (rs, n) \<Rightarrow> cons_ok (TAtom (Among True rs)) (tokenize (drop (Suc n) ls)))
         else
           (case set_items True ls of
              Inl e \<Rightarrow> Inl e
            | Inr (rs, n) \<Rightarrow> cons_ok (TAtom (Among False rs)) (tokenize (drop n ls))))
      else if snd l = CHR ''('' then
        (if take 1 ls = [(False, CHR ''?'')] then
           (if take 3 ls = [(False, CHR ''?''), (False, CHR ''P''), (False, CHR ''<'')] then
              (if (False, CHR ''>'') \<notin> set (drop 3 ls) then Inl ReError
               else if is_identifier (takeWhile (\<lambda>x. x \<noteq> (False, CHR ''>'')) (drop 3 ls)) then
                 cons_ok (TOpen (Some (map snd (takeWhile (\<lambda>x. x \<noteq> (False, CHR ''>'')) (drop 3 ls)))))
                   (tokenize (drop (Suc (length (takeWhile (\<lambda>x. x \<noteq> (False, CHR ''>'')) (drop 3 ls)))) (drop 3 ls)))
               else Inl NotModelled)
            else Inl NotModelled)
         else cons_ok (TOpen None) (tokenize ls))
      else if snd l = CHR ''^'' \<or> snd l = CHR ''$'' \<or> snd l = CHR ''{'' then Inl NotModelled
      else cons_ok (TAtom (One (snd l))) (tokenize ls))"
  by pat_completeness auto
termination
  by (relation "measure length") auto

subsection \<open>Syntax trees\<close>

datatype regex =
    Atom chset
  | Star chset
  | Plus chset
  | Opt chset
  | Eps
  | Cat regex regex
  | Alt regex regex
  | Group "string option" regex

fun seq_of :: "regex list \<Rightarrow> regex" where
  "seq_of [] = Eps"
| "seq_of (r # rs) = Cat r (seq_of rs)"

fun alt_list :: "regex list \<Rightarrow> regex" where
  "alt_list [] = Eps"
| "alt_list [r] = r"
| "alt_list (r # rs) = Alt r (alt_list rs)"

definition branches :: "regex list \<Rightarrow> regex list \<Rightarrow> regex" where
  "branches alts sq = alt_list (rev (seq_of (rev sq) # alts))"

text \<open>
  A repetition applies to the item before it: none is an error (nothing to repeat), a
  repeated item followed by \<open>*\<close> is an error (multiple repeat); lazy and possessive
  repetition and the repetition of a group are outside the fragment.
\<close>

fun quantify :: "token \<Rightarrow> regex list \<Rightarrow> re_failure + regex list" where
  "quantify q [] = Inl ReError"
| "quantify q (Atom a # sq) =
     Inr ((if q = TStar then Star a else if q = TPlus then Plus a else Opt a) # sq)"
| "quantify q (Group nm r # sq) = Inl NotModelled"
| "quantify q (r # sq) = (if q = TStar then Inl ReError else Inl NotModelled)"

type_synonym frame = "string option \<times> regex list \<times> regex list"

fun parse :: "frame list \<Rightarrow> string list \<Rightarrow> regex list \<Rightarrow> regex list \<Rightarrow> token list \<Rightarrow>
    re_failure + regex" where
  "parse stk names alts sq [] = (if stk = [] then Inr (branches alts sq) else Inl ReError)"
| "parse stk names alts sq (TAtom a # ts) = parse stk names alts (Atom a # sq) ts"
| "parse stk names alts sq (TBar # ts) = parse stk names (seq_of (rev sq) # alts) [] ts"
| "parse stk names alts sq (TOpen nm # ts) =
     (case nm of
        None \<Rightarrow> parse ((nm, alts, sq) # stk) names [] [] ts
      | Some n \<Rightarrow>
          if n \<in> set names then Inl ReError
          else parse ((nm, alts, sq) # stk) (n # names) [] [] ts)"
| "parse stk names alts sq (TClose # ts) =
     (case stk of
        [] \<Rightarrow> Inl ReError
      | (nm, alts', sq') # stk' \<Rightarrow> parse stk' names alts' (Group nm (branches alts sq) # sq') ts)"
| "parse stk names alts sq (q # ts) =
     (case quantify q sq of
        Inl e \<Rightarrow> Inl e
      | Inr sq' \<Rightarrow> parse stk names alts sq' ts)"

definition compile :: "string \<Rightarrow> re_failure + regex" where
  "compile pattern =
     (case lexemes pattern of
        Inl e \<Rightarrow> Inl e
      | Inr ls \<Rightarrow> (case tokenize ls of Inl e \<Rightarrow> Inl e | Inr ts \<Rightarrow> parse [] [] [] [] ts))"

subsection \<open>Backtracking matching\<close>

text \<open>
  \<open>run r (g, s)\<close> lists, in the order backtracking tries them, the ways \<open>r\<close> matches at the
  front of \<open>s\<close>: each is the text captured by the group named \<open>field\<close> so far and the
  rest of the string after the match.
\<close>

type_synonym mstate = "string option \<times> string"

fun run :: "regex \<Rightarrow> mstate \<Rightarrow> mstate list" where
  "run (Atom a) (g, s) = (case s of [] \<Rightarrow> [] | c # cs \<Rightarrow> if accepts a c then [(g, cs)] else [])"
| "run (Star a) (g, s) =
     map (\<lambda>n. (g, drop n s)) (rev [0 ..< Suc (length (takeWhile (accepts a) s))])"
| "run (Plus a) (g, s) =
     map (\<lambda>n. (g, drop n s)) (rev [1 ..< Suc (length (takeWhile (accepts a) s))])"
| "run (Opt a) (g, s) =
     (case s of [] \<Rightarrow> [(g, s)] | c # cs \<Rightarrow> if accepts a c then [(g, cs), (g, s)] else [(g, s)])"
| "run Eps st = [st]"
| "run (Cat r1 r2) st = concat (map (run r2) (run r1 st))"
| "run (Alt r1 r2) st = run r1 st @ run r2 st"
| "run (Group nm r) (g, s) =
     (if nm = Some ''field''
      then map (\<lambda>st'. (Some (take (length s - length (snd st')) s), snd st')) (run r (g, s))
      else run r (g, s))"

text \<open>
  The match at a position is the first way found; after an empty match the next one at
  the same position must be non-empty (\<open>adv\<close>).
\<close>

definition match_here :: "regex \<Rightarrow> bool \<Rightarrow> string \<Rightarrow> mstate option" where
  "match_here r adv s =
     find (\<lambda>st. if adv then length (snd st) < length s else True) (run r (None, s))"

subsection \<open>Replacement templates\<close>

datatype piece = Text char | FieldRef

fun control_char :: "char \<Rightarrow> char option" where
  "control_char c =
     (if c = CHR ''a'' then Some (CHR 0x07)
      else if c = CHR ''b'' then Some (CHR 0x08)
      else if c = CHR ''f'' then Some (CHR 0x0C)
      else if c = CHR ''n'' then Some (CHR 0x0A)
      else if c = CHR ''r'' then Some (CHR 0x0D)
      else if c = CHR ''t'' then Some (CHR 0x09)
      else if c = CHR ''v'' then Some (CHR 0x0B)
      else None)"

function parse_template :: "lexeme list \<Rightarrow> re_failure + piece list" where
  "parse_template [] = Inr []"
| "parse_template (l # ls) =
     (if \<not> fst l then cons_ok (Text (snd l)) (parse_template ls)
      else if snd l = CHR ''g'' then
        (if take 1 ls \<noteq> [(False, CHR ''<'')] then Inl ReError
         else if (False, CHR ''>'') \<notin> set (drop 1 ls) then Inl ReError
         else if map snd (takeWhile (\<lambda>x. x \<noteq> (False, CHR ''>'')) (drop 1 ls)) = ''field''
              \<and> list_all (\<lambda>x. \<not> fst x) (takeWhile (\<lambda>x. x \<noteq> (False, CHR ''>'')) (drop 1 ls))
           then cons_ok FieldRef (parse_template (drop 7 ls))
         else Inl NotModelled)
      else if snd l = backslash then cons_ok (Text backslash) (parse_template ls)
      else if ascii_digit (snd l) then Inl NotModelled
      else if ascii_letter (snd l) then
        (case control_char (snd l) of
           None \<Rightarrow> Inl ReError
         | Some c \<Rightarrow> cons_ok (Text c) (parse_template ls))
      else
        (case parse_template ls of
           Inl e \<Rightarrow> Inl e
         | Inr ps \<Rightarrow> Inr (Text backslash # Text (snd l) # ps)))"
  by pat_completeness auto
termination
  by (relation "measure length") auto

definition compile_template :: "string \<Rightarrow> re_failure + piece list" where
  "compile_template repl =
     (case lexemes repl of Inl e \<Rightarrow> Inl e | Inr ls \<Rightarrow> parse_template ls)"

fun expand :: "piece list \<Rightarrow> string option \<Rightarrow> string" where
  "expand [] g = []"
| "expand (Text c # ps) g = c # expand ps g"
| "expand (FieldRef # ps) g = (case g of None \<Rightarrow> [] | Some f \<Rightarrow> f) @ expand ps g"

subsection \<open>Substitution\<close>

text \<open>
  \<open>re.sub\<close> scans the string from the left. Where the pattern matches, the expanded
  template is written and the scan goes on behind the match; elsewhere one character is
  copied.
\<close>

function sub_loop :: "regex \<Rightarrow> piece list \<Rightarrow> bool \<Rightarrow> string \<Rightarrow> string" where
  "sub_loop r t adv s =
     (case match_here r adv s of
        None \<Rightarrow> (case s of [] \<Rightarrow> [] | c # cs \<Rightarrow> c # sub_loop r t False cs)
      | Some (g, rest) \<Rightarrow>
          if length rest < length s then expand t g @ sub_loop r t False rest
          else if adv then []
          else expand t g @ sub_loop r t True s)"
  by pat_completeness auto
termination
  by (relation "measure (\<lambda>(r, t, adv, s). 2 * length s + (if adv then 0 else 1))") auto

definition re_sub :: "string \<Rightarrow> string \<Rightarrow> string \<Rightarrow> re_failure + string" where
  "re_sub pattern repl s =
     (case compile pattern of
        Inl e \<Rightarrow> Inl e
      | Inr r \<Rightarrow>
         (case compile_template repl of
            Inl e \<Rightarrow> Inl e
          | Inr t \<Rightarrow> Inr (sub_loop r t False s)))"

section \<open>The module \<open>filtered_logger\<close>\<close>

fun join :: "string \<Rightarrow> string list \<Rightarrow> string" where
  "join sep [] = []"
| "join sep [x] = x"
| "join sep (x # xs) = x @ sep @ join sep xs"

text \<open>The entries \<open>extract\<close> and \<open>replace\<close> of the dictionary \<open>patterns\<close>.\<close>

definition patterns_extract :: "string list \<Rightarrow> string \<Rightarrow> string" where
  "patterns_extract fields separator = ''(?P<field>'' @ join ''|'' fields @ '')=[^'' @ separator @ '']*''"

definition patterns_replace :: "string \<Rightarrow> string" where
  "patterns_replace redaction = backslash # ''g<field>='' @ redaction"

definition PII_FIELDS :: "string list" where
  "PII_FIELDS = [''name'', ''email'', ''phone'', ''ssn'', ''password'']"

definition filter_datum :: "string list \<Rightarrow> string \<Rightarrow> string \<Rightarrow> string \<Rightarrow> re_failure + string" where
  "filter_datum fields redaction message separator =
     re_sub (patterns_extract fields separator) (patterns_replace redaction) message"

subsection \<open>The class \<open>RedactingFormatter\<close>\<close>

text \<open>
  A log record as the formatter reads it: the logger's name, the level's name, the
  formatted time and the message with its arguments merged in. Records carry no
  exception or stack information here.
\<close>

record log_record =
  name :: string
  levelname :: string
  asctime :: string
  message :: string

definition REDACTION :: string where
  "REDACTION = ''***''"

definition SEPARATOR :: string where
  "SEPARATOR = '';''"

definition ljust :: "nat \<Rightarrow> string \<Rightarrow> string" where
  "ljust w s = s @ replicate (w - length s) CHR '' ''"

text \<open>
  The base formatter with \<open>FORMAT\<close>:
  \<^verbatim>\<open>[HOLBERTON] %(name)s %(levelname)s %(asctime)-15s: %(message)s\<close>.
\<close>

definition format_base :: "log_record \<Rightarrow> string" where
  "format_base r =
     ''[HOLBERTON] '' @ name r @ '' '' @ levelname r @ '' '' @ ljust 15 (asctime r) @ '': '' @ message r"

definition format :: "string list \<Rightarrow> log_record \<Rightarrow> re_failure + string" where
  "format flds r = filter_datum flds REDACTION (format_base r) SEPARATOR"

subsection \<open>The record before its message is merged\<close>

text \<open>
  A \<open>log_record\<close> above is the record as the base formatter has filled it in: its
  \<open>message\<close> is the result of \<open>record.getMessage()\<close>. The base formatter computes that
  first, as \<open>msg % args\<close> when there are arguments, and this step can raise. The
  arguments modelled here are strings, the conversions are \<open>%s\<close>, \<open>%d\<close> (which needs a
  number, so it raises on a string) and \<open>%%\<close>; too few or too many arguments and a
  lone \<open>%\<close> at the end raise (\<open>MsgError\<close>), any other conversion is outside the
  fragment (\<open>MsgNotModelled\<close>).
\<close>

datatype msg_failure = MsgError | MsgNotModelled

fun percent_format :: "string \<Rightarrow> string list \<Rightarrow> msg_failure + string" where
  "percent_format [] av = (if av = [] then Inr [] else Inl MsgError)"
| "percent_format [c] av =
     (if c = CHR ''%'' then Inl MsgError
      else if av = [] then Inr [c]
      else Inl MsgError)"
| "percent_format (c # d # cs) av =
     (if c \<noteq> CHR ''%'' then cons_ok c (percent_format (d # cs) av)
      else if d = CHR ''%'' then cons_ok (CHR ''%'') (percent_format cs av)
      else if d = CHR ''s'' then
        (case av of
           [] \<Rightarrow> Inl MsgError
         | a # rest \<Rightarrow>
            (case percent_format cs rest of Inl e \<Rightarrow> Inl e | Inr t \<Rightarrow> Inr (a @ t)))
      else if d = CHR ''d'' then Inl MsgError
      else Inl MsgNotModelled)"

definition getMessage :: "string \<Rightarrow> string list \<Rightarrow> msg_failure + string" where
  "getMessage m av = (if av = [] then Inr m else percent_format m av)"

text \<open>
  The record as it reaches \<open>format\<close>: besides \<open>msg\<close> and \<open>args\<close> it may carry the
  text of an exception and of the stack (empty when there is none), which the base
  formatter appends on lines of their own.
\<close>

record raw_record =
  raw_name :: string
  raw_levelname :: string
  raw_asctime :: string
  msg :: string
  args :: "string list"
  exc_text :: string
  stack_info :: string

definition add_block :: "string \<Rightarrow> string \<Rightarrow> string" where
  "add_block s t =
     (if t = [] then s
      else (if s \<noteq> [] \<and> last s = newline then s else s @ [newline]) @ t)"

datatype failure = InMessage msg_failure | InPattern re_failure

definition base_format :: "raw_record \<Rightarrow> msg_failure + string" where
  "base_format e =
     (case getMessage (msg e) (args e) of
        Inl x \<Rightarrow> Inl x
      | Inr m \<Rightarrow>
          Inr (add_block
                (add_block
                  (format_base \<lparr>name = raw_name e, levelname = raw_levelname e,
                      asctime = raw_asctime e, message = m\<rparr>)
                  (exc_text e))
                (stack_info e)))"

text \<open>
  \<open>RedactingFormatter.format\<close> on such a record: the base formatter's text, if it
  returns one, filtered.
\<close>

definition format_raw :: "string list \<Rightarrow> raw_record \<Rightarrow> failure + string" where
  "format_raw flds e =
     (case base_format e of
        Inl x \<Rightarrow> Inl (InMessage x)
      | Inr s \<Rightarrow>
         (case filter_datum flds REDACTION s SEPARATOR of
            Inl x \<Rightarrow> Inl (InPattern x)
          | Inr t \<Rightarrow> Inr t))"


declare sub_loop.simps [simp del]

section \<open>The literal redactor\<close>

text \<open>
  The redactor as the specification words it, for comparison with the code: one scan from
  the left; where a listed field name stands right before \<open>=\<close>, the name, \<open>=\<close> and
  the token are written and the scan goes on at the next separator character (or at the
  end); elsewhere one character is copied. Names are compared character by character,
  the first listed name that fits is taken.
\<close>

function redact_literal :: "string list \<Rightarrow> string \<Rightarrow> string \<Rightarrow> string \<Rightarrow> string" where
  "redact_literal F T S [] = []"
| "redact_literal F T S (x # xs) =
     (case find (\<lambda>f. prefix (f @ ''='') (x # xs)) F of
        None \<Rightarrow> x # redact_literal F T S xs
      | Some f \<Rightarrow> f @ ''='' @ T @ redact_literal F T S (dropWhile (\<lambda>c. c \<notin> set S) (drop (length f) xs)))"
  by pat_completeness auto
termination
  by (relation "measure (\<lambda>(F, T, S, m). length m)")
    (auto intro!: le_imp_less_Suc order_trans [OF length_dropWhile_le])

subsection \<open>Arguments that the pattern takes as written\<close>

text \<open>
  The metacharacters of the pattern language; a field name is plain when it has none. A
  separator is taken as written by the character set it is placed in when it is not
  empty, has no backslash, has \<open>]\<close> at most as its first character and \<open>-\<close> at most
  as its first or last character.
\<close>

definition special :: "char \<Rightarrow> bool" where
  "special c = (c \<in> set ''.^$*+?{}[]|()'' \<or> c = backslash)"

definition plain :: "string \<Rightarrow> bool" where
  "plain s = list_all (\<lambda>c. \<not> special c) s"

definition plain_sep :: "string \<Rightarrow> bool" where
  "plain_sep s =
     (s \<noteq> [] \<and> backslash \<notin> set s \<and> CHR '']'' \<notin> set (tl s) \<and> CHR ''-'' \<notin> set (butlast (tl s)))"

text \<open>
  What the pattern of such arguments is read as: the lexemes of a string without
  backslash, the tokens of the joined names, the tree of one name, and the tree of the
  whole pattern. An empty field list joins to the empty string, as the list of one empty
  name does.
\<close>

definition lex :: "string \<Rightarrow> lexeme list" where
  "lex s = map (Pair False) s"

fun jtoks :: "string list \<Rightarrow> token list" where
  "jtoks [] = []"
| "jtoks [f] = map (\<lambda>c. TAtom (One c)) f"
| "jtoks (f # fs) = map (\<lambda>c. TAtom (One c)) f @ TBar # jtoks fs"

definition word :: "string \<Rightarrow> regex" where
  "word f = seq_of (map (\<lambda>c. Atom (One c)) f)"

definition eff :: "string list \<Rightarrow> string list" where
  "eff F = (if F = [] then [[]] else F)"

definition field_regex :: "string list \<Rightarrow> string \<Rightarrow> regex" where
  "field_regex F S =
     Cat (Group (Some ''field'') (alt_list (map word (eff F))))
       (Cat (Atom (One CHR ''='')) (Cat (Star (Among True (map (\<lambda>c. (c, c)) S))) Eps))"

section \<open>The code on plain arguments\<close>

text \<open>
  On plain field names, a token without backslash and a separator taken as written, the
  pattern and the template parse, and the substitution is the literal redactor.
\<close>

lemma lexemes_no_backslash: "backslash \<notin> set s \<Longrightarrow> lexemes s = Inr (lex s)"
  by (induction s rule: lexemes.induct) (auto simp: lex_def)

lemma lex_append: "lex (a @ b) = lex a @ lex b" by (simp add: lex_def)

lemma lex_Cons: "lex (c # s) = (False, c) # lex s" by (simp add: lex_def)

lemma lex_Nil: "lex [] = []" by (simp add: lex_def)

lemma tokenize_plain:
  "plain f \<Longrightarrow> tokenize (lex rest) = Inr ts \<Longrightarrow>
   tokenize (lex (f @ rest)) = Inr (map (\<lambda>c. TAtom (One c)) f @ ts)"
  by (induction f) (auto simp: plain_def special_def lex_Cons)

lemma set_items_rest:
  "backslash \<notin> set s \<Longrightarrow> CHR '']'' \<notin> set s \<Longrightarrow> CHR ''-'' \<notin> set (butlast s) \<Longrightarrow>
   set_items False (lex (s @ CHR '']'' # c # rest)) = Inr (map (\<lambda>c. (c, c)) s, Suc (length s))"
proof (induction s)
  case Nil
  then show ?case by (simp add: lex_Cons)
next
  case (Cons a s)
  show ?case
  proof (cases s)
    case Nil
    with Cons.prems show ?thesis by (auto simp: lex_Cons member_of_def split: list.splits if_splits)
  next
    case outer: (Cons b t)
    show ?thesis
    proof (cases t)
      case Nil
      with outer Cons.prems Cons.IH show ?thesis
        by (auto simp: lex_Cons member_of_def split: list.splits if_splits)
    next
      case (Cons b2 u)
      with outer Cons.prems Cons.IH show ?thesis
        by (auto simp: lex_Cons member_of_def split: list.splits if_splits)
    qed
  qed
qed

lemma set_items_plain:
  assumes "plain_sep s"
  shows "set_items True (lex (s @ CHR '']'' # c # rest)) = Inr (map (\<lambda>c. (c, c)) s, Suc (length s))"
proof (cases s)
  case Nil
  with assms show ?thesis by (simp add: plain_sep_def)
next
  case outer: (Cons a t)
  show ?thesis
  proof (cases t)
    case Nil
    with outer assms show ?thesis by (auto simp: plain_sep_def lex_Cons member_of_def split: list.splits if_splits)
  next
    case mid: (Cons b u)
    show ?thesis
    proof (cases u)
      case Nil
      with outer mid assms set_items_rest [of t c rest] show ?thesis
        by (auto simp: plain_sep_def lex_Cons member_of_def split: list.splits if_splits)
    next
      case (Cons b2 v)
      with outer mid assms set_items_rest [of t c rest] show ?thesis
        by (auto simp: plain_sep_def lex_Cons member_of_def split: list.splits if_splits)
    qed
  qed
qed

lemma tokenize_join:
  "list_all plain F \<Longrightarrow> tokenize (lex rest) = Inr ts \<Longrightarrow>
   tokenize (lex (join ''|'' F @ rest)) = Inr (jtoks F @ ts)"
proof (induction F rule: jtoks.induct)
  case 1
  then show ?case by simp
next
  case (2 f)
  then show ?case by (simp add: tokenize_plain)
next
  case (3 f g fs)
  have "tokenize (lex (join ''|'' (g # fs) @ rest)) = Inr (jtoks (g # fs) @ ts)"
    using 3 by simp
  then have "tokenize (lex (CHR ''|'' # join ''|'' (g # fs) @ rest)) = Inr (TBar # jtoks (g # fs) @ ts)"
    by (simp add: lex_Cons)
  with 3(2) tokenize_plain [of f "CHR ''|'' # join ''|'' (g # fs) @ rest"]
  show ?case by simp
qed

lemma tokenize_tail:
  assumes "plain_sep S"
  shows "tokenize (lex ('')=[^'' @ S @ '']*'')) =
     Inr [TClose, TAtom (One CHR ''=''), TAtom (Among True (map (\<lambda>c. (c, c)) S)), TStar]"
proof -
  have "set_items True (lex (S @ CHR '']'' # CHR ''*'' # [])) = Inr (map (\<lambda>c. (c, c)) S, Suc (length S))"
    using assms by (rule set_items_plain)
  then show ?thesis
    by (simp add: lex_Cons lex_append lex_Nil) (simp add: lex_def)
qed

lemma tokenize_pattern:
  assumes "list_all plain F" "plain_sep S"
  shows "tokenize (lex (patterns_extract F S)) =
     Inr (TOpen (Some ''field'') # jtoks F @
          [TClose, TAtom (One CHR ''=''), TAtom (Among True (map (\<lambda>c. (c, c)) S)), TStar])"
proof -
  have "tokenize (lex (join ''|'' F @ '')=[^'' @ S @ '']*'')) = Inr (jtoks F @
          [TClose, TAtom (One CHR ''=''), TAtom (Among True (map (\<lambda>c. (c, c)) S)), TStar])"
    using assms by (intro tokenize_join tokenize_tail)
  then show ?thesis
    by (simp add: patterns_extract_def lex_Cons is_identifier_def ascii_letter_def ascii_digit_def)
qed

lemma parse_atoms:
  "parse stk nm alts sq (map (\<lambda>c. TAtom (One c)) f @ ts) =
   parse stk nm alts (rev (map (\<lambda>c. Atom (One c)) f) @ sq) ts"
  by (induction f arbitrary: sq) auto

lemma parse_join:
  "parse ((g, alts', sq') # stk) nm alts [] (jtoks F @ TClose # ts) =
   parse stk nm alts' (Group g (alt_list (rev alts @ map word (eff F))) # sq') ts"
proof (induction F arbitrary: alts rule: jtoks.induct)
  case 1
  show ?case by (simp add: branches_def eff_def word_def)
next
  case (2 f)
  show ?case by (simp add: parse_atoms branches_def eff_def word_def)
next
  case (3 f h fs)
  show ?case
    using 3 [of "word f # alts"] by (simp add: parse_atoms eff_def word_def)
qed

lemma set_join: "set (join sep F) \<subseteq> set sep \<union> \<Union> (set ` set F)"
  by (induction sep F rule: join.induct) auto

lemma plain_no_backslash: "plain f \<Longrightarrow> backslash \<notin> set f"
  by (auto simp: plain_def special_def list_all_iff)

lemma pattern_no_backslash:
  assumes "list_all plain F" "plain_sep S"
  shows "backslash \<notin> set (patterns_extract F S)"
proof -
  have "backslash \<notin> set (join ''|'' F)"
    using set_join [of "''|''" F] assms(1)
    by (auto simp: list_all_iff backslash_def dest!: plain_no_backslash [unfolded backslash_def])
  moreover have "backslash \<notin> set S"
    using assms(2) by (simp add: plain_sep_def)
  ultimately show ?thesis
    by (simp add: patterns_extract_def backslash_def)
qed

lemma compile_pattern:
  assumes "list_all plain F" "plain_sep S"
  shows "compile (patterns_extract F S) = Inr (field_regex F S)"
proof -
  have "parse [] [] [] []
      (TOpen (Some ''field'') # jtoks F @
          [TClose, TAtom (One CHR ''=''), TAtom (Among True (map (\<lambda>c. (c, c)) S)), TStar]) =
      Inr (field_regex F S)"
    by (simp add: parse_join branches_def field_regex_def)
  then show ?thesis
    using assms
    by (simp add: compile_def lexemes_no_backslash pattern_no_backslash tokenize_pattern)
qed

lemma parse_template_plain: "parse_template (lex T) = Inr (map Text T)"
  by (induction T) (simp_all add: lex_Cons lex_Nil)

lemma compile_template_plain:
  assumes "backslash \<notin> set T"
  shows "compile_template (patterns_replace T) = Inr (FieldRef # Text CHR ''='' # map Text T)"
proof -
  have "lexemes (patterns_replace T) = cons_ok (True, CHR ''g'') (Inr (lex (''<field>='' @ T)))"
    using assms lexemes_no_backslash [of "''<field>='' @ T"]
    by (simp add: patterns_replace_def backslash_def)
  then show ?thesis
    by (simp add: compile_template_def lex_Cons parse_template_plain)
qed

lemma expand_template: "expand (FieldRef # Text CHR ''='' # map Text T) (Some f) = f @ ''='' @ T"
proof -
  have "expand (map Text T) g = T" for g by (induction T) simp_all
  then show ?thesis by simp
qed

lemma run_word: "run (word f) (g, s) = (if prefix f s then [(g, drop (length f) s)] else [])"
proof (induction f arbitrary: s)
  case Nil
  show ?case by (simp add: word_def)
next
  case (Cons c f)
  have w: "word (c # f) = Cat (Atom (One c)) (word f)" by (simp add: word_def)
  show ?case by (cases s) (simp_all add: w Cons)
qed

lemma run_alts:
  "Fs \<noteq> [] \<Longrightarrow> run (alt_list (map word Fs)) (g, s) =
     map (\<lambda>f. (g, drop (length f) s)) (filter (\<lambda>f. prefix f s) Fs)"
proof (induction Fs)
  case Nil
  then show ?case by simp
next
  case (Cons f Fs)
  show ?case
  proof (cases Fs)
    case Nil
    then show ?thesis by (simp add: run_word)
  next
    case (Cons h Hs)
    with Cons.IH show ?thesis by (simp add: run_word)
  qed
qed

lemma run_group:
  "Fs \<noteq> [] \<Longrightarrow> run (Group (Some ''field'') (alt_list (map word Fs))) (g, s) =
     map (\<lambda>f. (Some f, drop (length f) s)) (filter (\<lambda>f. prefix f s) Fs)"
  by (auto simp: run_alts prefix_def)

lemma accepts_sep: "accepts (Among True (map (\<lambda>c. (c, c)) S)) c = (c \<notin> set S)"
  by (auto simp: list_ex_iff)

lemma run_value:
  "run (Cat (Atom (One CHR ''='')) (Cat (Star (Among True (map (\<lambda>c. (c, c)) S))) Eps)) (g, u) =
     (case u of
        [] \<Rightarrow> []
      | c # v \<Rightarrow>
          if c = CHR ''='' then
            (g, dropWhile (\<lambda>c. c \<notin> set S) v) #
              map (\<lambda>n. (g, drop n v)) (rev [0 ..< length (takeWhile (\<lambda>c. c \<notin> set S) v)])
          else [])"
proof (cases u)
  case Nil
  then show ?thesis by simp
next
  case (Cons c v)
  have a: "accepts (Among True (map (\<lambda>c. (c, c)) S)) = (\<lambda>c. c \<notin> set S)"
    by (rule ext) (rule accepts_sep)
  have "concat (map (\<lambda>x. [f x]) xs) = map f xs" for f :: "nat \<Rightarrow> mstate" and xs
    by (induction xs) simp_all
  then show ?thesis
    using Cons by (simp add: a dropWhile_eq_drop o_def del: accepts.simps(3))
qed

lemma prefix_eq_iff:
  "prefix (f @ ''='') s \<longleftrightarrow> prefix f s \<and> (\<exists>v. drop (length f) s = CHR ''='' # v)"
  by (auto simp: prefix_def)

lemma first_of_fields:
  "find (\<lambda>st. True)
     (concat (map (run (Cat (Atom (One CHR ''='')) (Cat (Star (Among True (map (\<lambda>c. (c, c)) S))) Eps)))
        (map (\<lambda>f. (Some f, drop (length f) s)) (filter (\<lambda>f. prefix f s) Fs)))) =
   (case find (\<lambda>f. prefix (f @ ''='') s) Fs of
      None \<Rightarrow> None
    | Some f \<Rightarrow> Some (Some f, dropWhile (\<lambda>c. c \<notin> set S) (drop (Suc (length f)) s)))"
proof (induction Fs)
  case Nil
  show ?case by simp
next
  case (Cons f Fs)
  show ?case
  proof (cases "prefix f s")
    case False
    then have "\<not> prefix (f @ ''='') s" by (simp add: prefix_eq_iff)
    with False Cons show ?thesis by simp
  next
    case True
    show ?thesis
    proof (cases "drop (length f) s")
      case Nil
      then have "\<not> prefix (f @ ''='') s" by (simp add: prefix_eq_iff)
      with True Nil Cons show ?thesis by (simp add: run_value del: run.simps)
    next
      case (Cons c v)
      note dr = this
      show ?thesis
      proof (cases "c = CHR ''=''")
        case False
        then have "\<not> prefix (f @ ''='') s" using dr by (simp add: prefix_eq_iff)
        with True dr False Cons.IH show ?thesis by (simp add: run_value del: run.simps)
      next
        case eq: True
        then have p: "prefix (f @ ''='') s" using dr True by (simp add: prefix_eq_iff)
        have "drop (Suc (length f)) s = v"
          using dr by (metis drop_Suc tl_drop list.sel(3))
        with True dr eq p show ?thesis by (simp add: run_value del: run.simps)
      qed
    qed
  qed
qed

lemma eff_nonempty: "eff F \<noteq> []" by (simp add: eff_def)

lemma match_here_fields:
  "match_here (field_regex F S) False s =
   (case find (\<lambda>f. prefix (f @ ''='') s) (eff F) of
      None \<Rightarrow> None
    | Some f \<Rightarrow> Some (Some f, dropWhile (\<lambda>c. c \<notin> set S) (drop (Suc (length f)) s)))"
proof -
  have "run (field_regex F S) (None, s) =
     concat (map (run (Cat (Atom (One CHR ''='')) (Cat (Star (Among True (map (\<lambda>c. (c, c)) S))) Eps)))
        (map (\<lambda>f. (Some f, drop (length f) s)) (filter (\<lambda>f. prefix f s) (eff F))))"
    unfolding field_regex_def run.simps(6) [of "Group (Some ''field'') (alt_list (map word (eff F)))"]
    by (simp only: run_group [OF eff_nonempty])
  then show ?thesis
    by (simp only: match_here_def if_False first_of_fields)
qed

lemma find_False: "find (\<lambda>f. False) xs = None"
  by (induction xs) simp_all

lemma sub_loop_fields:
  "sub_loop (field_regex F S) (FieldRef # Text CHR ''='' # map Text T) False s =
   redact_literal (eff F) T S s"
proof (induction "eff F" T S s rule: redact_literal.induct)
  case (1 T S)
  show ?case
    by (subst sub_loop.simps) (simp add: match_here_fields find_False)
next
  case (2 T S x xs)
  show ?case
  proof (cases "find (\<lambda>f. prefix (f @ ''='') (x # xs)) (eff F)")
    case None
    with 2(1) show ?thesis
      by (subst sub_loop.simps) (simp add: match_here_fields)
  next
    case (Some f)
    have "length (dropWhile (\<lambda>c. c \<notin> set S) (drop (length f) xs)) < Suc (length xs)"
      by (intro le_imp_less_Suc order_trans [OF length_dropWhile_le]) simp
    with Some 2(2) [OF Some] show ?thesis
      by (subst sub_loop.simps) (simp add: match_here_fields expand_template del: expand.simps)
  qed
qed

lemma filter_datum_plain:
  assumes "list_all plain F" "plain_sep S" "backslash \<notin> set T"
  shows "filter_datum F T m S = Inr (redact_literal (eff F) T S m)"
  using assms
  by (simp add: filter_datum_def re_sub_def compile_pattern compile_template_plain sub_loop_fields)

section \<open>Properties of the literal redactor\<close>

text \<open>
  The scan keeps the first character of its input, creates no new place where a name
  stands before \<open>=\<close> (if no name holds \<open>=\<close> followed by the token), is idempotent
  under that condition, and copies a prefix in which no match can start.
\<close>

lemma redact_nomatch:
  "find (\<lambda>f. prefix (f @ ''='') (x # xs)) F = None \<Longrightarrow>
   redact_literal F T S (x # xs) = x # redact_literal F T S xs"
  by simp

lemma redact_match:
  assumes "find (\<lambda>f. prefix (f @ ''='') s) F = Some f"
  shows "redact_literal F T S s =
     f @ ''='' @ T @ redact_literal F T S (dropWhile (\<lambda>c. c \<notin> set S) (drop (Suc (length f)) s))"
proof (cases s)
  case Nil
  with assms have "prefix (f @ ''='') []" by (auto simp: find_Some_iff)
  then show ?thesis by simp
next
  case (Cons x xs)
  with assms show ?thesis by simp
qed

lemma find_prefix_SomeD:
  "find (\<lambda>f. prefix (f @ ''='') s) F = Some f \<Longrightarrow> f \<in> set F \<and> (\<exists>w. s = f @ CHR ''='' # w)"
  by (auto simp: find_Some_iff prefix_def)

lemma redact_hd: "s \<noteq> [] \<Longrightarrow> redact_literal F T S s \<noteq> [] \<and> hd (redact_literal F T S s) = hd s"
proof (cases s)
  case Nil
  assume "s \<noteq> []" with Nil show ?thesis by simp
next
  case (Cons x xs)
  show ?thesis
  proof (cases "find (\<lambda>f. prefix (f @ ''='') (x # xs)) F")
    case None
    with Cons show ?thesis by simp
  next
    case (Some f)
    then obtain w where "x # xs = f @ CHR ''='' # w" using find_prefix_SomeD by blast
    then have "hd (f @ ''='') = x" by (cases f) auto
    with Some Cons show ?thesis by (cases f) auto
  qed
qed

lemma no_new_match:
  "CHR ''='' \<notin> set T \<Longrightarrow> \<not> sublist (''='' @ T) g \<Longrightarrow>
   prefix (g @ ''='') (redact_literal F T S s) \<Longrightarrow> prefix (g @ ''='') s"
proof (induction F T S s arbitrary: g rule: redact_literal.induct)
  case (1 F T S)
  then show ?case by simp
next
  case (2 F T S x xs)
  note T = "2.prems"(1) and nosub = "2.prems"(2) and pre = "2.prems"(3)
  show ?case
  proof (cases "find (\<lambda>f. prefix (f @ ''='') (x # xs)) F")
    case None
    show ?thesis
    proof (cases g)
      case Nil
      with None pre show ?thesis by simp
    next
      case (Cons y g')
      have "\<not> sublist (''='' @ T) g'"
        using nosub Cons by (auto simp: sublist_Cons_right)
      with None Cons pre "2.IH"(1) [OF None T, of g'] show ?thesis by simp
    qed
  next
    case (Some f)
    then obtain w where s: "x # xs = f @ CHR ''='' # w" using find_prefix_SomeD by blast
    let ?rest = "redact_literal F T S (dropWhile (\<lambda>c. c \<notin> set S) (drop (length f) xs))"
    from Some have "redact_literal F T S (x # xs) = f @ ''='' @ T @ ?rest" by simp
    with pre obtain r where r: "g @ CHR ''='' # r = f @ CHR ''='' # T @ ?rest"
      by (auto simp: prefix_def)
    show ?thesis
    proof (cases "length g \<le> length f")
      case True
      have "prefix (g @ ''='') (g @ CHR ''='' # r)" by simp
      then have a: "prefix (g @ ''='') (f @ CHR ''='' # T @ ?rest)" by (simp only: r)
      have b: "prefix (f @ ''='') (f @ CHR ''='' # T @ ?rest)" by simp
      have "prefix (g @ ''='') (f @ ''='')"
        using prefix_length_prefix [OF a b] True by simp
      moreover have "prefix (f @ ''='') (x # xs)" unfolding s by simp
      ultimately show ?thesis by (rule prefix_order.trans)
    next
      case False
      define k where "k = length g - Suc (length f)"
      have lg: "length g = length f + Suc k" using False by (simp add: k_def)
      have "g = take (length g) (g @ CHR ''='' # r)" by simp
      also have "\<dots> = take (length f + Suc k) (f @ CHR ''='' # T @ ?rest)" by (simp only: r lg)
      also have "\<dots> = f @ CHR ''='' # take k (T @ ?rest)" by simp
      finally obtain u where u: "g = f @ CHR ''='' # u" by blast
      with r have eq: "u @ CHR ''='' # r = T @ ?rest" by simp
      show ?thesis
      proof (cases "length u < length T")
        case True
        have "take (Suc (length u)) (u @ CHR ''='' # r) = u @ ''=''" by simp
        with eq have "take (Suc (length u)) (T @ ?rest) = u @ ''=''" by simp
        with True have "take (Suc (length u)) T = u @ ''=''" by simp
        then have "CHR ''='' \<in> set (take (Suc (length u)) T)" by simp
        then have "CHR ''='' \<in> set T" by (rule in_set_takeD)
        with T show ?thesis by blast
      next
        case False
        then have "take (length T) (u @ CHR ''='' # r) = take (length T) u" by simp
        with eq have "take (length T) u = T" by simp
        then have "u = T @ drop (length T) u" by (metis append_take_drop_id)
        with u have "g = f @ (''='' @ T) @ drop (length T) u" by simp
        then have "sublist (''='' @ T) g" unfolding sublist_def by blast
        with nosub show ?thesis by blast
      qed
    qed
  qed
qed

lemma find_same_first:
  "find P xs = Some x \<Longrightarrow> Q x \<Longrightarrow> (\<And>y. y \<in> set xs \<Longrightarrow> Q y \<Longrightarrow> P y) \<Longrightarrow> find Q xs = Some x"
  by (induction xs) (auto split: if_splits)

lemma find_none_transfer:
  "find P xs = None \<Longrightarrow> (\<And>y. y \<in> set xs \<Longrightarrow> Q y \<Longrightarrow> P y) \<Longrightarrow> find Q xs = None"
  by (induction xs) (auto split: if_splits)

lemma dropWhile_sep_fixed:
  assumes "u = dropWhile (\<lambda>c. c \<notin> set S) w"
  shows "dropWhile (\<lambda>c. c \<notin> set S) (redact_literal F T S u) = redact_literal F T S u"
proof (cases "u = []")
  case True
  then show ?thesis by simp
next
  case False
  then have "hd u \<in> set S" using assms hd_dropWhile [of "\<lambda>c. c \<notin> set S" w] by simp
  with redact_hd [OF False, of F T S] show ?thesis
    by (cases "redact_literal F T S u") simp_all
qed

lemma redact_idem:
  "CHR ''='' \<notin> set T \<Longrightarrow> set T \<inter> set S = {} \<Longrightarrow> \<forall>f\<in>set F. \<not> sublist (''='' @ T) f \<Longrightarrow>
   redact_literal F T S (redact_literal F T S s) = redact_literal F T S s"
proof (induction F T S s rule: redact_literal.induct)
  case (1 F T S)
  show ?case by simp
next
  case (2 F T S x xs)
  note T = "2.prems"(1) and TS = "2.prems"(2) and nosub = "2.prems"(3)
  have older: "prefix (g @ ''='') (redact_literal F T S (x # xs)) \<Longrightarrow> prefix (g @ ''='') (x # xs)"
    if "g \<in> set F" for g
    using no_new_match [OF T, of g F S "x # xs"] nosub that by blast
  show ?case
  proof (cases "find (\<lambda>f. prefix (f @ ''='') (x # xs)) F")
    case None
    then have r: "redact_literal F T S (x # xs) = x # redact_literal F T S xs" by simp
    have "find (\<lambda>f. prefix (f @ ''='') (x # redact_literal F T S xs)) F = None"
      using None older unfolding r by (rule find_none_transfer)
    then have "redact_literal F T S (x # redact_literal F T S xs) =
        x # redact_literal F T S (redact_literal F T S xs)"
      by simp
    with r "2.IH"(1) [OF None T TS nosub] show ?thesis by simp
  next
    case (Some f)
    let ?u = "dropWhile (\<lambda>c. c \<notin> set S) (drop (length f) xs)"
    let ?s' = "f @ ''='' @ T @ redact_literal F T S ?u"
    from Some have r: "redact_literal F T S (x # xs) = ?s'" by simp
    have "find (\<lambda>f. prefix (f @ ''='') ?s') F = Some f"
      using Some _ older [unfolded r] by (rule find_same_first) simp_all
    then have "redact_literal F T S ?s' =
        f @ ''='' @ T @ redact_literal F T S
          (dropWhile (\<lambda>c. c \<notin> set S) (drop (Suc (length f)) ?s'))"
      by (rule redact_match)
    moreover have "drop (Suc (length f)) ?s' = T @ redact_literal F T S ?u" by simp
    moreover have "dropWhile (\<lambda>c. c \<notin> set S) (T @ redact_literal F T S ?u) =
        dropWhile (\<lambda>c. c \<notin> set S) (redact_literal F T S ?u)"
      using TS by (intro dropWhile_append2) auto
    moreover have "dropWhile (\<lambda>c. c \<notin> set S) (redact_literal F T S ?u) = redact_literal F T S ?u"
      by (rule dropWhile_sep_fixed) (rule refl)
    ultimately have "redact_literal F T S ?s' = f @ ''='' @ T @ redact_literal F T S (redact_literal F T S ?u)"
      by simp
    with r "2.IH"(2) [OF Some T TS nosub] show ?thesis by simp
  qed
qed

lemma redact_skip:
  "CHR ''='' \<notin> set p \<Longrightarrow> (\<And>f. p \<noteq> [] \<Longrightarrow> f \<in> set F \<Longrightarrow> last p \<notin> set f) \<Longrightarrow>
   redact_literal F T S (p @ m) = p @ redact_literal F T S m"
proof (induction p)
  case Nil
  show ?case by simp
next
  case (Cons x p)
  have "\<not> prefix (f @ ''='') ((x # p) @ m)" if f: "f \<in> set F" for f
  proof
    assume "prefix (f @ ''='') ((x # p) @ m)"
    then consider "prefix (f @ ''='') (x # p)" | us where "f @ ''='' = (x # p) @ us"
      unfolding prefix_append by blast
    then show False
    proof cases
      case 1
      then have "set (f @ ''='') \<subseteq> set (x # p)" by (rule set_mono_prefix)
      with Cons.prems(1) show False by auto
    next
      case 2
      show False
      proof (cases us rule: rev_cases)
        case Nil
        with 2 have "CHR ''='' \<in> set (x # p)" by (metis append_Nil2 in_set_conv_decomp)
        with Cons.prems(1) show False by blast
      next
        case (snoc vs c)
        with 2 have "f = (x # p) @ vs" by simp
        then have "last (x # p) \<in> set f" by simp
        with Cons.prems(2) [OF _ f] show False by blast
      qed
    qed
  qed
  then have "find (\<lambda>f. prefix (f @ ''='') (x # p @ m)) F = None"
    by (simp add: find_None_iff)
  then have "redact_literal F T S (x # p @ m) = x # redact_literal F T S (p @ m)" by simp
  moreover have "redact_literal F T S (p @ m) = p @ redact_literal F T S m"
  proof (rule Cons.IH)
    show "CHR ''='' \<notin> set p" using Cons.prems(1) by simp
    show "last p \<notin> set f" if "p \<noteq> []" "f \<in> set F" for f
      using Cons.prems(2) [of f] that by simp
  qed
  ultimately show ?case by simp
qed

lemma redact_value_end:
  assumes "set v \<inter> set S = {}" "c \<in> set S"
  shows "redact_literal [f] T S (f @ ''='' @ v @ c # rest) =
     f @ ''='' @ T @ redact_literal [f] T S (c # rest)"
proof -
  have "find (\<lambda>g. prefix (g @ ''='') (f @ ''='' @ v @ c # rest)) [f] = Some f" by simp
  then have "redact_literal [f] T S (f @ ''='' @ v @ c # rest) =
      f @ ''='' @ T @ redact_literal [f] T S
        (dropWhile (\<lambda>c. c \<notin> set S) (drop (Suc (length f)) (f @ ''='' @ v @ c # rest)))"
    by (rule redact_match)
  moreover have "dropWhile (\<lambda>c. c \<notin> set S) (v @ c # rest) = c # rest"
    using assms by (subst dropWhile_append2) auto
  ultimately show ?thesis by simp
qed

lemma plain_no_star: "plain f \<Longrightarrow> \<not> sublist (''='' @ ''***'') f"
proof
  assume p: "plain f" and q: "sublist (''='' @ ''***'') f"
  from q have "set (''='' @ ''***'') \<subseteq> set f" by (rule set_mono_sublist)
  then have "CHR ''*'' \<in> set f" by simp
  with p show False by (auto simp: plain_def special_def list_all_iff)
qed

lemma filter_datum_idem:
  assumes "list_all plain F" "backslash \<notin> set T" "plain_sep S"
    and "CHR ''='' \<notin> set T" "set T \<inter> set S = {}" "\<forall>f\<in>set F. \<not> sublist (''='' @ T) f"
  shows "filter_datum F T (redact_literal (eff F) T S m) S = Inr (redact_literal (eff F) T S m)"
proof -
  have "\<forall>f\<in>set (eff F). \<not> sublist (''='' @ T) f"
    using assms(6) by (auto simp: eff_def)
  with assms show ?thesis
    by (simp add: filter_datum_plain redact_idem)
qed

lemma redact_scenario:
  "redact_literal PII_FIELDS REDACTION SEPARATOR
     ''name=John Doe;email=john@example.com;phone=5551234;ssn=123-45-6789;password=secret;ip=127.0.0.1;last_login=2024-01-01;user_agent=Mozilla'' =
   ''name=***;email=***;phone=***;ssn=***;password=***;ip=127.0.0.1;last_login=2024-01-01;user_agent=Mozilla''"
  by code_simp

lemma no_match_before_eq:
  assumes "CHR ''='' \<notin> set u" "length g < length u"
  shows "\<not> prefix (g @ ''='') (u @ w)"
proof
  assume "prefix (g @ ''='') (u @ w)"
  then obtain r where "u @ w = (g @ ''='') @ r" by (auto simp: prefix_def)
  then have "take (Suc (length g)) (u @ w) = g @ ''=''" by simp
  with assms(2) have "take (Suc (length g)) u = g @ ''=''" by simp
  then have "CHR ''='' \<in> set (take (Suc (length g)) u)" by simp
  then have "CHR ''='' \<in> set u" by (rule in_set_takeD)
  with assms(1) show False by blast
qed

lemma redact_unchanged:
  "list_all (\<lambda>f. \<not> sublist (f @ ''='') m) F \<Longrightarrow> redact_literal F T S m = m"
proof (induction m)
  case Nil
  show ?case by simp
next
  case (Cons x m)
  have "\<not> prefix (f @ ''='') (x # m)" if "f \<in> set F" for f
    using Cons.prems that by (auto simp: list_all_iff)
  then have "find (\<lambda>f. prefix (f @ ''='') (x # m)) F = None"
    by (simp add: find_None_iff)
  moreover have "list_all (\<lambda>f. \<not> sublist (f @ ''='') m) F"
    using Cons.prems by (auto simp: list_all_iff sublist_Cons_right)
  ultimately show ?case using Cons.IH by simp
qed

lemma redact_at_name:
  assumes "CHR ''='' \<notin> set f" "CHR ''='' \<notin> set p" "set v \<inter> set S = {}"
  shows "redact_literal [f] T S (p @ f @ ''='' @ v) = p @ f @ ''='' @ T"
  using assms(2)
proof (induction p)
  case Nil
  have "find (\<lambda>g. prefix (g @ ''='') (f @ ''='' @ v)) [f] = Some f" by simp
  then have "redact_literal [f] T S (f @ ''='' @ v) =
      f @ ''='' @ T @ redact_literal [f] T S
        (dropWhile (\<lambda>c. c \<notin> set S) (drop (Suc (length f)) (f @ ''='' @ v)))"
    by (rule redact_match)
  moreover have "dropWhile (\<lambda>c. c \<notin> set S) v = []"
    using assms(3) by auto
  ultimately show ?case by simp
next
  case (Cons x p)
  have "\<not> prefix (f @ ''='') (((x # p) @ f) @ ''='' @ v)"
    using assms(1) Cons.prems by (intro no_match_before_eq) auto
  then have "find (\<lambda>g. prefix (g @ ''='') (x # p @ f @ ''='' @ v)) [f] = None" by simp
  then have "redact_literal [f] T S (x # p @ f @ ''='' @ v) =
      x # redact_literal [f] T S (p @ f @ ''='' @ v)"
    by simp
  with Cons show ?case by simp
qed





lemma format_raw_of_format:
  assumes "getMessage (msg e) (args e) = Inr m" "exc_text e = []" "stack_info e = []"
  shows "format_raw flds e =
    (case format flds \<lparr>name = raw_name e, levelname = raw_levelname e, asctime = raw_asctime e,
        message = m\<rparr> of Inl x \<Rightarrow> Inl (InPattern x) | Inr t \<Rightarrow> Inr t)"
  using assms by (simp add: format_raw_def base_format_def add_block_def format_def)

section \<open>The claims\<close>

text \<open>
  C1, as the claim states it: filtering the formatter's output again, with the same
  fields, token and separator, would leave it unchanged. With the field names \<open>a\<close> and
  \<open>xa=...;c\<close> it does not: the first pass redacts \<open>a=1\<close> inside \<open>xa=1;c=2\<close>, and the
  three dots of the second name then match the token, so that the second pass redacts the
  value of \<open>c\<close> too.
\<close>

theorem format_refilter_counterexample:
  "format [''a'', ''xa=...;c'']
     \<lparr>name = ''user_data'', levelname = ''INFO'', asctime = ''2024-01-01 00:00:00,000'',
      message = ''xa=1;c=2''\<rparr> =
     Inr ''[HOLBERTON] user_data INFO 2024-01-01 00:00:00,000: xa=***;c=2'' \<and>
   filter_datum [''a'', ''xa=...;c''] REDACTION
     ''[HOLBERTON] user_data INFO 2024-01-01 00:00:00,000: xa=***;c=2'' SEPARATOR =
     Inr ''[HOLBERTON] user_data INFO 2024-01-01 00:00:00,000: xa=***;c=***''"
  by code_simp

text \<open>
  C1, amended. For a formatter whose field names contain no regular-expression
  metacharacter, the string \<open>format\<close> returns for any record is left unchanged by
  \<open>filter_datum\<close> with the same fields, token and separator: it holds no listed name
  followed by \<open>=\<close> and a value other than the token.
\<close>

theorem format_output_is_fixed_point:
  assumes "list_all plain F"
  shows "\<exists>out. format F r = Inr out \<and> filter_datum F REDACTION out SEPARATOR = Inr out"
proof -
  have "plain_sep SEPARATOR" "backslash \<notin> set REDACTION" "CHR ''='' \<notin> set REDACTION"
    "set REDACTION \<inter> set SEPARATOR = {}"
    by (simp_all add: SEPARATOR_def REDACTION_def plain_sep_def backslash_def)
  moreover have "\<forall>f\<in>set F. \<not> sublist (''='' @ REDACTION) f"
    using assms plain_no_star by (auto simp: REDACTION_def list_all_iff)
  ultimately show ?thesis
    using assms filter_datum_idem [of F REDACTION SEPARATOR "format_base r"]
    by (simp add: format_def filter_datum_plain)
qed

theorem format_output_is_fixed_point_witness:
  "list_all plain PII_FIELDS \<and>
   (\<exists>out. format PII_FIELDS
       \<lparr>name = ''user_data'', levelname = ''INFO'', asctime = ''2024-01-01 00:00:00,000'',
        message = ''name=Bob;ip=1''\<rparr> = Inr out \<and>
      filter_datum PII_FIELDS REDACTION out SEPARATOR = Inr out)"
proof -
  have h: "list_all plain PII_FIELDS"
    by (simp add: PII_FIELDS_def plain_def special_def backslash_def)
  show ?thesis using h format_output_is_fixed_point [OF h] by blast
qed

text \<open>
  C2, as the claim states it: with the field list \<open>name\<close>, the input
  \<open>username=alice\<close> would come back unchanged. It does not: the pattern has no check
  of what stands before the name.
\<close>

theorem filter_datum_substring_counterexample:
  "filter_datum [''name''] ''***'' ''username=alice'' '';'' \<noteq> Inr ''username=alice''"
  by code_simp

text \<open>
  C2, amended. A listed name is matched wherever its characters stand right before \<open>=\<close>,
  whatever precedes them, so also as the end of a longer name: for a field name \<open>f\<close>
  without metacharacters and without \<open>=\<close>, any text \<open>p\<close> without \<open>=\<close> and any value
  \<open>v\<close> without separator characters, \<open>p + f + "=" + v\<close> becomes \<open>p + f + "=" + token\<close>;
  a message in which \<open>f\<close> followed by \<open>=\<close> does not occur comes back unchanged. With the
  field list \<open>name\<close>, \<open>username=alice\<close> becomes \<open>username=***\<close>.
\<close>

theorem filter_datum_matches_name_suffix:
  assumes "plain f" "CHR ''='' \<notin> set f" "backslash \<notin> set T" "plain_sep S"
    and "CHR ''='' \<notin> set p" "set v \<inter> set S = {}"
  shows "filter_datum [f] T (p @ f @ ''='' @ v) S = Inr (p @ f @ ''='' @ T) \<and>
    (\<not> sublist (f @ ''='') m \<longrightarrow> filter_datum [f] T m S = Inr m)"
proof -
  have "list_all plain [f]" using assms(1) by simp
  then have "filter_datum [f] T w S = Inr (redact_literal [f] T S w)" for w
    using filter_datum_plain [of "[f]" S T w] assms(3,4) by (simp add: eff_def)
  then show ?thesis
    using redact_at_name [OF assms(2,5,6)] redact_unchanged [of m "[f]" T S] by simp
qed

theorem filter_datum_matches_name_suffix_witness:
  "plain ''name'' \<and> CHR ''='' \<notin> set ''name'' \<and> backslash \<notin> set ''***'' \<and> plain_sep '';'' \<and>
   CHR ''='' \<notin> set ''user'' \<and> set ''alice'' \<inter> set '';'' = {} \<and>
   \<not> sublist ''name='' ''user=alice'' \<and>
   filter_datum [''name''] ''***'' ''username=alice'' '';'' = Inr ''username=***'' \<and>
   filter_datum [''name''] ''***'' ''user=alice'' '';'' = Inr ''user=alice''"
proof -
  have h: "plain ''name''" "CHR ''='' \<notin> set ''name''" "backslash \<notin> set ''***''" "plain_sep '';''"
    "CHR ''='' \<notin> set ''user''" "set ''alice'' \<inter> set '';'' = {}"
    by (simp_all add: plain_def special_def plain_sep_def backslash_def)
  have n: "\<not> sublist ''name='' ''user=alice''" by (simp add: sublist_code)
  show ?thesis
    using h n filter_datum_matches_name_suffix [OF h, of "''user=alice''"] by simp
qed

text \<open>
  C3. With an empty field list the pattern is \<open>(?P<field>)=[^;]*\<close>: the group matches
  the empty string, so every \<open>=\<close> and the value after it is replaced. On \<open>a=b\<close> the
  code returns \<open>a=***\<close>, not the message.
\<close>

theorem filter_datum_empty_fields_redacts:
  "filter_datum [] ''***'' ''a=b'' '';'' = Inr ''a=***''"
  by code_simp

text \<open>
  C4, as the claim states it: a field name with a metacharacter would be matched
  literally. The name \<open>a.c\<close> is not: its dot matches any character, so \<open>abc=1\<close> is
  redacted although \<open>a.c=\<close> does not occur in it.
\<close>

theorem filter_datum_metachar_counterexample:
  "filter_datum [''a.c''] ''***'' ''abc=1'' '';'' \<noteq>
   Inr (redact_literal [''a.c''] ''***'' '';'' ''abc=1'')"
  by code_simp

text \<open>
  C4, amended. For field names without regular-expression metacharacters (a non-empty
  list), a token without backslash and a separator the character set takes as written,
  \<open>filter_datum\<close> is the literal redactor: only the exact characters of a name followed
  by \<open>=\<close> are matched.
\<close>

theorem filter_datum_literal_on_plain_names:
  assumes "F \<noteq> []" "list_all plain F" "backslash \<notin> set T" "plain_sep S"
  shows "filter_datum F T m S = Inr (redact_literal F T S m)"
  using assms filter_datum_plain [of F S T m] by (simp add: eff_def)

theorem filter_datum_literal_on_plain_names_witness:
  "[''name'', ''ssn''] \<noteq> [] \<and> list_all plain [''name'', ''ssn''] \<and> backslash \<notin> set ''***'' \<and>
   plain_sep '';'' \<and>
   filter_datum [''name'', ''ssn''] ''***'' ''username=x;ssn=1'' '';'' = Inr ''username=***;ssn=***''"
proof -
  have h: "[''name'', ''ssn''] \<noteq> []" "list_all plain [''name'', ''ssn'']" "backslash \<notin> set ''***''"
    "plain_sep '';''"
    by (simp_all add: plain_def special_def plain_sep_def backslash_def)
  show ?thesis
    using h filter_datum_literal_on_plain_names [OF h, of "''username=x;ssn=1''"] by simp
qed




text \<open>
  C6, as the claim states it: \<open>filter_datum\<close> would be idempotent for every field list,
  token and separator. With the fields \<open>a\<close> and \<open>xa=T;c\<close>, the token \<open>T\<close> and the
  separator \<open>;\<close>, the message \<open>xa=1;c=2\<close> becomes \<open>xa=T;c=2\<close>, and that becomes
  \<open>xa=T;c=T\<close>.
\<close>

theorem filter_datum_idempotence_counterexample:
  "filter_datum [''a'', ''xa=T;c''] ''T'' ''xa=1;c=2'' '';'' = Inr ''xa=T;c=2'' \<and>
   filter_datum [''a'', ''xa=T;c''] ''T'' ''xa=T;c=2'' '';'' = Inr ''xa=T;c=T''"
  by code_simp

text \<open>
  C6, amended. \<open>filter_datum\<close> is idempotent when the field names contain no
  regular-expression metacharacter, the token contains no backslash, no \<open>=\<close> and no
  separator character, the separator is one the character set takes as written, and no
  field name contains \<open>=\<close> followed by the token.
\<close>

theorem filter_datum_idempotent_on_plain:
  assumes "list_all plain F" "backslash \<notin> set T" "plain_sep S"
    and "CHR ''='' \<notin> set T" "set T \<inter> set S = {}" "list_all (\<lambda>f. \<not> sublist (''='' @ T) f) F"
  shows "\<exists>out. filter_datum F T m S = Inr out \<and> filter_datum F T out S = Inr out"
proof -
  have "\<forall>f\<in>set F. \<not> sublist (''='' @ T) f"
    using assms(6) by (simp add: list_all_iff)
  with assms show ?thesis
    using filter_datum_idem [of F T S m] by (simp add: filter_datum_plain)
qed

theorem filter_datum_idempotent_on_plain_witness:
  "list_all plain [''name'', ''ssn''] \<and> backslash \<notin> set ''***'' \<and> plain_sep '';'' \<and>
   CHR ''='' \<notin> set ''***'' \<and> set ''***'' \<inter> set '';'' = {} \<and>
   list_all (\<lambda>f. \<not> sublist (''='' @ ''***'') f) [''name'', ''ssn''] \<and>
   (\<exists>out. filter_datum [''name'', ''ssn''] ''***'' ''name=a;ssn=1'' '';'' = Inr out \<and>
      filter_datum [''name'', ''ssn''] ''***'' out '';'' = Inr out)"
proof -
  have h: "list_all plain [''name'', ''ssn'']" "backslash \<notin> set ''***''" "plain_sep '';''"
    "CHR ''='' \<notin> set ''***''" "set ''***'' \<inter> set '';'' = {}"
    "list_all (\<lambda>f. \<not> sublist (''='' @ ''***'') f) [''name'', ''ssn'']"
    by (simp_all add: plain_def special_def plain_sep_def backslash_def sublist_code)
  show ?thesis
    using h filter_datum_idempotent_on_plain [OF h, of "''name=a;ssn=1''"] by blast
qed

text \<open>
  C7. On the message \<open>name=Bob;email=bob@x.com;phone=555;ssn=1;password=p\<close>, with the
  five field names, the token \<open>***\<close> and the separator \<open>;\<close>, \<open>filter_datum\<close> returns
  exactly \<open>name=***;email=***;phone=***;ssn=***;password=***\<close>.
\<close>

theorem filter_datum_basic_redaction:
  "filter_datum [''name'', ''email'', ''phone'', ''ssn'', ''password''] ''***''
     ''name=Bob;email=bob@x.com;phone=555;ssn=1;password=p'' '';'' =
   Inr ''name=***;email=***;phone=***;ssn=***;password=***''"
  by code_simp



text \<open>
  C9, as the claim states it, for every event with the given message: the message part
  of the rendered line would be the redacted message. The whole rendered line is
  filtered, so a logger named \<open>ssn=\<close> makes the envelope itself a match whose value
  runs up to the first \<open>;\<close> of the message, and \<open>name=***\<close> is not in the output.
\<close>

theorem format_scenario_counterexample:
  "format PII_FIELDS
     \<lparr>name = ''ssn='', levelname = ''INFO'', asctime = ''2024-01-01 00:00:00,000'',
      message = ''name=John Doe;email=john@example.com;phone=5551234;ssn=123-45-6789;password=secret;ip=127.0.0.1;last_login=2024-01-01;user_agent=Mozilla''\<rparr> =
   Inr ''[HOLBERTON] ssn=***;email=***;phone=***;ssn=***;password=***;ip=127.0.0.1;last_login=2024-01-01;user_agent=Mozilla'' \<and>
   format PII_FIELDS
     \<lparr>name = ''ssn='', levelname = ''INFO'', asctime = ''2024-01-01 00:00:00,000'',
      message = ''name=John Doe;email=john@example.com;phone=5551234;ssn=123-45-6789;password=secret;ip=127.0.0.1;last_login=2024-01-01;user_agent=Mozilla''\<rparr> \<noteq>
   Inr (''[HOLBERTON] ssn= INFO 2024-01-01 00:00:00,000: '' @
     ''name=***;email=***;phone=***;ssn=***;password=***;ip=127.0.0.1;last_login=2024-01-01;user_agent=Mozilla'')"
  by code_simp

text \<open>
  C9, amended. For the formatter with the five field names and an event whose logger
  name, level name and time hold no \<open>=\<close>, the rendered line is the envelope followed by
  \<open>name=***;email=***;phone=***;ssn=***;password=***;ip=127.0.0.1;last_login=2024-01-01;user_agent=Mozilla\<close>:
  the fields \<open>ip\<close>, \<open>last_login\<close> and \<open>user_agent\<close> are unchanged.
\<close>

theorem format_end_to_end_scenario:
  assumes m: "message r = ''name=John Doe;email=john@example.com;phone=5551234;ssn=123-45-6789;password=secret;ip=127.0.0.1;last_login=2024-01-01;user_agent=Mozilla''"
    and e: "CHR ''='' \<notin> set (name r)" "CHR ''='' \<notin> set (levelname r)" "CHR ''='' \<notin> set (asctime r)"
  shows "format PII_FIELDS r =
    Inr (''[HOLBERTON] '' @ name r @ '' '' @ levelname r @ '' '' @ ljust 15 (asctime r) @ '': '' @
      ''name=***;email=***;phone=***;ssn=***;password=***;ip=127.0.0.1;last_login=2024-01-01;user_agent=Mozilla'')"
proof -
  let ?env = "''[HOLBERTON] '' @ name r @ '' '' @ levelname r @ '' '' @ ljust 15 (asctime r) @ '': ''"
  have p: "list_all plain PII_FIELDS" "plain_sep SEPARATOR" "backslash \<notin> set REDACTION"
    by (simp_all add: PII_FIELDS_def SEPARATOR_def REDACTION_def plain_def special_def plain_sep_def
        backslash_def)
  have b: "format_base r = ?env @ message r" by (simp add: format_base_def)
  have "CHR ''='' \<notin> set ?env" using e by (auto simp: ljust_def)
  moreover have "last ?env \<notin> set f" if "f \<in> set PII_FIELDS" for f
    using that by (auto simp: PII_FIELDS_def)
  ultimately have "redact_literal PII_FIELDS REDACTION SEPARATOR (?env @ message r) =
      ?env @ redact_literal PII_FIELDS REDACTION SEPARATOR (message r)"
    by (intro redact_skip) blast+
  then show ?thesis
    using filter_datum_plain [OF p, of "format_base r"] redact_scenario
    by (simp add: format_def b m eff_def PII_FIELDS_def)
qed

theorem format_end_to_end_scenario_witness:
  "message \<lparr>name = ''user_data'', levelname = ''INFO'', asctime = ''2024-01-01 00:00:00,000'',
      message = ''name=John Doe;email=john@example.com;phone=5551234;ssn=123-45-6789;password=secret;ip=127.0.0.1;last_login=2024-01-01;user_agent=Mozilla''\<rparr> =
      ''name=John Doe;email=john@example.com;phone=5551234;ssn=123-45-6789;password=secret;ip=127.0.0.1;last_login=2024-01-01;user_agent=Mozilla'' \<and>
   CHR ''='' \<notin> set ''user_data'' \<and> CHR ''='' \<notin> set ''INFO'' \<and> CHR ''='' \<notin> set ''2024-01-01 00:00:00,000'' \<and>
   format PII_FIELDS
     \<lparr>name = ''user_data'', levelname = ''INFO'', asctime = ''2024-01-01 00:00:00,000'',
      message = ''name=John Doe;email=john@example.com;phone=5551234;ssn=123-45-6789;password=secret;ip=127.0.0.1;last_login=2024-01-01;user_agent=Mozilla''\<rparr> =
   Inr ''[HOLBERTON] user_data INFO 2024-01-01 00:00:00,000: name=***;email=***;phone=***;ssn=***;password=***;ip=127.0.0.1;last_login=2024-01-01;user_agent=Mozilla''"
  using format_end_to_end_scenario [of "\<lparr>name = ''user_data'', levelname = ''INFO'', asctime = ''2024-01-01 00:00:00,000'',
      message = ''name=John Doe;email=john@example.com;phone=5551234;ssn=123-45-6789;password=secret;ip=127.0.0.1;last_login=2024-01-01;user_agent=Mozilla''\<rparr>"]
  by (simp add: ljust_def)

text \<open>
  C10, as the claim states it: the value would end at the first occurrence of any
  character of a separator longer than one character. In the separator \<open>a-c\<close> the
  hyphen makes a range: the value \<open>1-2\<close> does not end at its \<open>-\<close>.
\<close>

theorem separator_range_counterexample:
  "filter_datum [''x''] ''***'' ''x=1-2'' ''a-c'' = Inr ''x=***'' \<and>
   filter_datum [''x''] ''***'' ''x=1-2'' ''a-c'' \<noteq> Inr (redact_literal [''x''] ''***'' ''a-c'' ''x=1-2'')"
  by code_simp

text \<open>
  C10, amended. A separator of more than one character that the character set takes as
  written (no backslash, \<open>]\<close> only first, \<open>-\<close> only first or last) is a set of
  characters: the value of a field ends at the first character \<open>c\<close> of the separator,
  whether or not the whole separator occurs, and the rest of the message from \<open>c\<close> on is
  filtered on its own.
\<close>

theorem separator_characters_end_value:
  assumes "plain f" "backslash \<notin> set T" "plain_sep S" "1 < length S"
    and "set v \<inter> set S = {}" "c \<in> set S"
  shows "\<exists>tail. filter_datum [f] T (c # rest) S = Inr tail \<and>
    filter_datum [f] T (f @ ''='' @ v @ c # rest) S = Inr (f @ ''='' @ T @ tail)"
proof -
  have "list_all plain [f]" using assms(1) by simp
  then have "filter_datum [f] T m S = Inr (redact_literal [f] T S m)" for m
    using filter_datum_plain [of "[f]" S T m] assms(2,3) by (simp add: eff_def)
  then show ?thesis
    using redact_value_end [OF assms(5,6)] by simp
qed

theorem separator_characters_end_value_witness:
  "plain ''x'' \<and> backslash \<notin> set ''***'' \<and> plain_sep ''; '' \<and> 1 < length ''; '' \<and>
   set ''1'' \<inter> set ''; '' = {} \<and> CHR '' '' \<in> set ''; '' \<and>
   filter_datum [''x''] ''***'' ''x=1 2;y'' ''; '' = Inr ''x=*** 2;y''"
proof -
  have h: "plain ''x''" "backslash \<notin> set ''***''" "plain_sep ''; ''" "1 < length ''; ''"
    "set ''1'' \<inter> set ''; '' = {}" "CHR '' '' \<in> set ''; ''"
    by (simp_all add: plain_def special_def plain_sep_def backslash_def)
  have t: "filter_datum [''x''] ''***'' '' 2;y'' ''; '' = Inr '' 2;y''" by code_simp
  show ?thesis
    using h separator_characters_end_value [OF h, of "''2;y''"] t by simp
qed

end
